theory Spec2Isabelle
  imports Main "HOL-Library.Word"
begin

unbundle bit_operations_syntax

section \<open>Data model of \<open>tmTreemap.h\<close>\<close>

text \<open>
  A C++ \<open>int\<close> is a 32-bit word read in two's complement (\<open>sint\<close>).
  A pointer (\<open>TmNode*\<close>, \<open>TmTreemap*\<close>) is an address or \<open>NULL\<close>:
  \<open>None\<close> is \<open>NULL\<close>, \<open>Some a\<close> is the object stored at address \<open>a\<close>.
  Dereferencing \<open>NULL\<close> or an address that holds no object, and reading a vector
  outside its bounds, is undefined behaviour in C++; the model makes each of them a
  value of type \<open>fault\<close>, so that every theorem that promises a result also promises
  that none of them happened.
\<close>

type_synonym cint = "32 word"
type_synonym ptr = "nat option"

datatype fault = NullPointer | InvalidPointer | OutOfBounds | AssertionFailed

text \<open>
  \<open>TmNode\<close> is declared in \<open>tmNode.h\<close>; the fields below are the ones the code of
  \<open>tmTreemap.h\<close> reads and writes (\<open>status\<close>, \<open>parent\<close>, \<open>tree\<close>) together with
  the two child links of the binary tree.
\<close>

record TmNode =
  status :: cint
  parent :: ptr
  child0 :: ptr
  child1 :: ptr
  tree :: ptr

text \<open>The members of \<open>class TmTreemap\<close> that the modelled code uses.\<close>

record TmTreemap =
  root :: ptr
  node :: "ptr list"
  unusedNodes :: "cint list"
  isEstimateValid :: bool
  isGaussianValidValid :: bool

text \<open>The objects in memory: address \<open>a\<close> holds \<open>nodes m ! a\<close>, resp. \<open>treemaps m ! a\<close>.\<close>

record memory =
  nodes :: "TmNode list"
  treemaps :: "TmTreemap list"

section \<open>\<open>TmTreemap::getNode\<close>\<close>

text \<open>\<open>XycVector::operator[]\<close>: a read outside the vector is a fault.\<close>

definition vectorAt :: "'a list \<Rightarrow> cint \<Rightarrow> fault + 'a" where
  "vectorAt xs i =
     (if 0 \<le> sint i \<and> nat (sint i) < length xs then Inr (xs ! nat (sint i))
      else Inl OutOfBounds)"

text \<open>The cast \<open>(int) node.size()\<close> keeps the low 32 bits of the size.\<close>

definition sizeAsInt :: "'a list \<Rightarrow> cint" where
  "sizeAsInt xs = word_of_nat (length xs)"

text \<open>
  \<^verbatim>\<open>if (0<=index && index<(int) node.size()) return node[index]; else return NULL;\<close>
\<close>

definition getNode :: "TmTreemap \<Rightarrow> cint \<Rightarrow> fault + ptr" where
  "getNode tm index =
     (if 0 \<le>s index \<and> index <s sizeAsInt (node tm) then vectorAt (node tm) index
      else Inr None)"

section \<open>\<open>TmNode::resetFlagUpToRoot\<close>\<close>

text \<open>
  The status bits are the enumerators of \<open>TmNode::Status\<close>, declared in \<open>tmNode.h\<close>.
  Their numeric values are not part of \<open>tmTreemap.h\<close>, so the model takes them as a
  parameter: a record with one field per enumerator that the modelled code names.
\<close>

record Status =
  IS_FEATURE_PASSED_VALID :: cint
  IS_GAUSSIAN_VALID :: cint
  CAN_BE_MOVED :: cint
  CAN_BE_INTEGRATED :: cint

text \<open>
  The loop
  \<^verbatim>\<open>while (n!=NULL && (n->status & flag)!=0) { n->status &= nFlag; n = n->parent; }\<close>
  with \<open>nFlag = ~flag\<close>. It ends on every memory, also on one whose parent links form a
  cycle: each pass clears the mask on one more node, and a node whose mask is clear stops
  the walk.
\<close>

function resetFlagLoop :: "cint \<Rightarrow> TmNode list \<Rightarrow> ptr \<Rightarrow> fault + TmNode list" where
  "resetFlagLoop flag ns n =
     (case n of
        None \<Rightarrow> Inr ns
      | Some a \<Rightarrow>
          if length ns \<le> a then Inl InvalidPointer
          else if status (ns ! a) AND flag \<noteq> 0
          then resetFlagLoop flag
                 (ns[a := (ns ! a)\<lparr>status := status (ns ! a) AND NOT flag\<rparr>]) (parent (ns ! a))
          else Inr ns)"
  by pat_completeness auto
termination
proof (relation "measure (\<lambda>(flag, ns, n). length (filter (\<lambda>x. status x AND flag \<noteq> 0) ns))")
  show "wf (measure (\<lambda>(flag, ns, n). length (filter (\<lambda>x. status x AND flag \<noteq> 0) ns)))"
    by simp
next
  fix flag :: cint and ns :: "TmNode list" and n :: ptr and a :: nat
  assume a: "\<not> length ns \<le> a" and set: "status (ns ! a) AND flag \<noteq> 0"
  have fewer: "length (filter P (xs[i := v])) < length (filter P xs)"
    if "i < length xs" "P (xs ! i)" "\<not> P v"
    for P :: "TmNode \<Rightarrow> bool" and xs :: "TmNode list" and i :: nat and v :: TmNode
    using that
  proof (induction xs arbitrary: i)
    case Nil
    then show ?case by simp
  next
    case (Cons x xs)
    show ?case
    proof (cases i)
      case 0
      with Cons.prems show ?thesis by simp
    next
      case (Suc j)
      with Cons.prems have "length (filter P (xs[j := v])) < length (filter P xs)"
        by (intro Cons.IH) simp_all
      with Suc show ?thesis by simp
    qed
  qed
  have "(status (ns ! a) AND NOT flag) AND flag = 0"
    by (simp add: and.assoc)
  with a set show "((flag, ns[a := (ns ! a)\<lparr>status := status (ns ! a) AND NOT flag\<rparr>],
        parent (ns ! a)), (flag, ns, n))
      \<in> measure (\<lambda>(flag, ns, n). length (filter (\<lambda>x. status x AND flag \<noteq> 0) ns))"
    by (simp add: fewer)
qed

text \<open>
  The whole method, called on the node at address \<open>this\<close>; the last line is
  \<^verbatim>\<open>if ((flag & IS_GAUSSIAN_VALID)!=0) tree->isEstimateValid = false;\<close>
  where \<open>tree\<close> is the member of the node the method was called on.
\<close>

definition resetFlagUpToRoot :: "Status \<Rightarrow> memory \<Rightarrow> nat \<Rightarrow> cint \<Rightarrow> fault + memory" where
  "resetFlagUpToRoot st m this flag =
     (case resetFlagLoop flag (nodes m) (Some this) of
        Inl f \<Rightarrow> Inl f
      | Inr ns \<Rightarrow>
          if flag AND IS_GAUSSIAN_VALID st \<noteq> 0
          then (case tree (ns ! this) of
                  None \<Rightarrow> Inl NullPointer
                | Some t \<Rightarrow>
                    if length (treemaps m) \<le> t then Inl InvalidPointer
                    else Inr (m\<lparr>nodes := ns,
                           treemaps := (treemaps m)[t := (treemaps m ! t)\<lparr>isEstimateValid := False\<rparr>]\<rparr>))
          else Inr (m\<lparr>nodes := ns\<rparr>))"

subsection \<open>Notions used to state what the method does\<close>

text \<open>A pointer is valid in a memory region if it is \<open>NULL\<close> or the address of an object.\<close>

definition validPtr :: "'a list \<Rightarrow> ptr \<Rightarrow> bool" where
  "validPtr xs p = (case p of None \<Rightarrow> True | Some a \<Rightarrow> a < length xs)"

definition validParents :: "TmNode list \<Rightarrow> bool" where
  "validParents ns = list_all (\<lambda>n. validPtr ns (parent n)) ns"

text \<open>
  \<open>flaggedChain flag ns a x\<close>: node \<open>x\<close> is \<open>a\<close> itself or one of its successive ancestors,
  and \<open>a\<close>, \<open>x\<close> and every node between them on the parent chain have some bit of \<open>flag\<close>
  set. These are the nodes the walk from \<open>a\<close> reaches before it meets a node on which the
  mask is already clear.
\<close>

inductive flaggedChain :: "cint \<Rightarrow> TmNode list \<Rightarrow> nat \<Rightarrow> nat \<Rightarrow> bool"
  for flag :: cint and ns :: "TmNode list" and a :: nat
where
  chain_start: "a < length ns \<Longrightarrow> status (ns ! a) AND flag \<noteq> 0 \<Longrightarrow> flaggedChain flag ns a a"
| chain_step: "flaggedChain flag ns a b \<Longrightarrow> parent (ns ! b) = Some c \<Longrightarrow> c < length ns \<Longrightarrow>
     status (ns ! c) AND flag \<noteq> 0 \<Longrightarrow> flaggedChain flag ns a c"

definition cleared :: "cint \<Rightarrow> TmNode \<Rightarrow> TmNode" where
  "cleared flag n = n\<lparr>status := status n AND NOT flag\<rparr>"

text \<open>\<open>ancestor ns a p\<close>: \<open>p\<close> is the parent of \<open>a\<close>, or the parent of an ancestor of \<open>a\<close>.\<close>

inductive ancestor :: "TmNode list \<Rightarrow> nat \<Rightarrow> nat \<Rightarrow> bool"
  for ns :: "TmNode list" and a :: nat
where
  ancestor_parent: "a < length ns \<Longrightarrow> parent (ns ! a) = Some p \<Longrightarrow> ancestor ns a p"
| ancestor_step: "ancestor ns a p \<Longrightarrow> p < length ns \<Longrightarrow> parent (ns ! p) = Some q \<Longrightarrow>
     ancestor ns a q"

text \<open>A node is live in treemap \<open>t\<close> if it is reachable from \<open>root\<close> through child links.\<close>

inductive live :: "memory \<Rightarrow> nat \<Rightarrow> nat \<Rightarrow> bool"
  for m :: memory and t :: nat
where
  live_root: "t < length (treemaps m) \<Longrightarrow> root (treemaps m ! t) = Some r \<Longrightarrow> live m t r"
| live_child0: "live m t a \<Longrightarrow> a < length (nodes m) \<Longrightarrow> child0 (nodes m ! a) = Some c \<Longrightarrow>
     live m t c"
| live_child1: "live m t a \<Longrightarrow> a < length (nodes m) \<Longrightarrow> child1 (nodes m ! a) = Some c \<Longrightarrow>
     live m t c"

text \<open>
  The shape of a tree in memory: every parent pointer is valid, every child link points
  to a node whose parent pointer points back, and the root has no parent.
\<close>

definition childLinked :: "TmNode list \<Rightarrow> nat \<Rightarrow> ptr \<Rightarrow> bool" where
  "childLinked ns a c =
     (case c of None \<Rightarrow> True | Some k \<Rightarrow> k < length ns \<and> parent (ns ! k) = Some a)"

definition childrenLinked :: "TmNode list \<Rightarrow> bool" where
  "childrenLinked ns =
     (\<forall>a<length ns. childLinked ns a (child0 (ns ! a)) \<and> childLinked ns a (child1 (ns ! a)))"

definition wellFormedTree :: "memory \<Rightarrow> nat \<Rightarrow> bool" where
  "wellFormedTree m t \<longleftrightarrow>
     t < length (treemaps m) \<and> validParents (nodes m) \<and> childrenLinked (nodes m) \<and>
     (case root (treemaps m ! t) of
        None \<Rightarrow> True
      | Some r \<Rightarrow> r < length (nodes m) \<and> parent (nodes m ! r) = None)"

text \<open>
  The validity invariant for one status bit \<open>f\<close>: a live node on which \<open>f\<close> is clear has
  \<open>f\<close> clear on every ancestor.
\<close>

definition flagInvariant :: "memory \<Rightarrow> nat \<Rightarrow> cint \<Rightarrow> bool" where
  "flagInvariant m t f \<longleftrightarrow>
     (\<forall>a p. live m t a \<longrightarrow> ancestor (nodes m) a p \<longrightarrow>
        status (nodes m ! a) AND f = 0 \<longrightarrow> status (nodes m ! p) AND f = 0)"

definition singleBit :: "cint \<Rightarrow> bool" where
  "singleBit f \<longleftrightarrow> (\<exists>k<32. f = 2 ^ k)"

section \<open>Example states\<close>

text \<open>A treemap whose node vector holds two live nodes and one freed slot.\<close>

definition exampleTreemap :: TmTreemap where
  "exampleTreemap = \<lparr>root = Some 0, node = [Some 0, None, Some 2], unusedNodes = [1],
     isEstimateValid = True, isGaussianValidValid = True\<rparr>"

text \<open>
  A memory with one treemap and a tree of five nodes: root 0 with children 1 and 2,
  node 1 with children 3 and 4. The root's Gaussian is invalid, every other node is valid.
\<close>

definition exampleStatus :: Status where
  "exampleStatus = \<lparr>IS_FEATURE_PASSED_VALID = 1, IS_GAUSSIAN_VALID = 2, CAN_BE_MOVED = 8,
     CAN_BE_INTEGRATED = 32\<rparr>"

definition exampleNodes :: "TmNode list" where
  "exampleNodes =
    [\<lparr>status = 1, parent = None, child0 = Some 1, child1 = Some 2, tree = Some 0\<rparr>,
     \<lparr>status = 3, parent = Some 0, child0 = Some 3, child1 = Some 4, tree = Some 0\<rparr>,
     \<lparr>status = 3, parent = Some 0, child0 = None, child1 = None, tree = Some 0\<rparr>,
     \<lparr>status = 3, parent = Some 1, child0 = None, child1 = None, tree = Some 0\<rparr>,
     \<lparr>status = 3, parent = Some 1, child0 = None, child1 = None, tree = Some 0\<rparr>]"

definition exampleMemory :: memory where
  "exampleMemory = \<lparr>nodes = exampleNodes,
     treemaps = [\<lparr>root = Some 0, node = [Some 0, Some 1, Some 2, Some 3, Some 4],
       unusedNodes = [], isEstimateValid = True, isGaussianValidValid = True\<rparr>]\<rparr>"

section \<open>Properties of \<open>getNode\<close>\<close>

lemma sint_sizeAsInt_le: "sint (sizeAsInt xs) \<le> int (length xs)"
proof -
  have "sint (sizeAsInt xs) = signed_take_bit 31 (int (length xs))"
    by (simp add: sizeAsInt_def signed_of_nat)
  moreover have "- (2 ^ 31) \<le> int (length xs)"
    by (rule order_trans [of _ 0]) simp_all
  ultimately show ?thesis
    by (simp only: signed_take_bit_int_less_eq_self_iff)
qed

lemma sint_sizeAsInt_small:
  assumes "length xs < 2 ^ 31"
  shows "sint (sizeAsInt xs) = int (length xs)"
proof -
  have "sint (sizeAsInt xs) = signed_take_bit 31 (int (length xs))"
    by (simp add: sizeAsInt_def signed_of_nat)
  moreover have "- (2 ^ 31) \<le> int (length xs)"
    by (rule order_trans [of _ 0]) simp_all
  moreover have "int (length xs) < 2 ^ 31"
  proof -
    from assms have "int (length xs) < int (2 ^ 31)" by (simp only: of_nat_less_iff)
    then show ?thesis by simp
  qed
  ultimately show ?thesis
    by (simp only: signed_take_bit_int_eq_self)
qed

lemma getNode_no_fault: "getNode tm index \<noteq> Inl f"
proof -
  have "getNode tm index = Inr (node tm ! nat (sint index))"
    if "0 \<le>s index" "index <s sizeAsInt (node tm)"
  proof -
    from that have "0 \<le> sint index" "sint index < sint (sizeAsInt (node tm))"
      by (simp_all add: word_sle_eq word_sless_alt)
    with sint_sizeAsInt_le [of "node tm"] have "nat (sint index) < length (node tm)"
      by linarith
    with that \<open>0 \<le> sint index\<close> show ?thesis
      by (simp add: getNode_def vectorAt_def)
  qed
  then show ?thesis
    by (cases "0 \<le>s index \<and> index <s sizeAsInt (node tm)") (auto simp: getNode_def)
qed

text \<open>
  Claim C9. \<open>getNode\<close> is total: for no index and no node vector does it read the
  vector out of bounds (it never yields a fault); for every index outside
  \<open>[0, node.size())\<close> it returns \<open>NULL\<close>; and for an index inside the range it returns
  the stored slot, which may itself be \<open>NULL\<close>. The last part is stated for node vectors
  whose size is representable as an \<open>int\<close>, the type the guard casts the size to.
\<close>

theorem getNode_total:
  "(\<forall>f. getNode tm index \<noteq> Inl f) \<and>
   (sint index < 0 \<or> int (length (node tm)) \<le> sint index \<longrightarrow> getNode tm index = Inr None) \<and>
   (length (node tm) < 2 ^ 31 \<longrightarrow> 0 \<le> sint index \<longrightarrow> sint index < int (length (node tm)) \<longrightarrow>
      getNode tm index = Inr (node tm ! nat (sint index)))"
proof (intro conjI allI impI)
  fix f show "getNode tm index \<noteq> Inl f" by (rule getNode_no_fault)
next
  assume "sint index < 0 \<or> int (length (node tm)) \<le> sint index"
  with sint_sizeAsInt_le [of "node tm"]
  have "\<not> (0 \<le>s index \<and> index <s sizeAsInt (node tm))"
    by (auto simp: word_sle_eq word_sless_alt)
  then show "getNode tm index = Inr None"
    by (auto simp: getNode_def)
next
  assume small: "length (node tm) < 2 ^ 31"
    and lo: "0 \<le> sint index" and hi: "sint index < int (length (node tm))"
  from hi sint_sizeAsInt_small [OF small] lo
  have "0 \<le>s index \<and> index <s sizeAsInt (node tm)"
    by (simp add: word_sle_eq word_sless_alt)
  moreover from lo hi have "nat (sint index) < length (node tm)"
    by linarith
  ultimately show "getNode tm index = Inr (node tm ! nat (sint index))"
    using lo by (simp add: getNode_def vectorAt_def)
qed

theorem getNode_total_witness:
  "getNode exampleTreemap (- 1) = Inr None \<and> getNode exampleTreemap 3 = Inr None \<and>
   getNode exampleTreemap 1 = Inr None \<and> getNode exampleTreemap 2 = Inr (Some 2)"
  using getNode_total [of exampleTreemap "- 1"] getNode_total [of exampleTreemap 3]
    getNode_total [of exampleTreemap 1] getNode_total [of exampleTreemap 2]
  by (simp add: exampleTreemap_def)

section \<open>Properties of \<open>resetFlagUpToRoot\<close>\<close>

declare resetFlagLoop.simps [simp del]

lemma and_not_and_self [simp]: "(s AND NOT flag) AND flag = (0 :: cint)"
  by (simp add: and.assoc)

lemma validParents_nth:
  "validParents ns \<Longrightarrow> a < length ns \<Longrightarrow> parent (ns ! a) = Some p \<Longrightarrow> p < length ns"
  by (auto simp: validParents_def validPtr_def list_all_length split: option.splits)

lemma validParents_update:
  assumes "validParents ns" "a < length ns" "parent v = parent (ns ! a)"
  shows "validParents (ns[a := v])"
  using assms
  by (auto simp: validParents_def validPtr_def list_all_length nth_list_update split: option.splits)

lemma flaggedChain_start_flagged:
  "flaggedChain flag ns a x \<Longrightarrow> a < length ns \<and> status (ns ! a) AND flag \<noteq> 0"
  by (induction rule: flaggedChain.induct) auto

lemma flaggedChain_end_flagged:
  "flaggedChain flag ns a x \<Longrightarrow> x < length ns \<and> status (ns ! x) AND flag \<noteq> 0"
  by (induction rule: flaggedChain.induct) auto

lemma flaggedChain_prepend:
  assumes "flaggedChain flag ns p x" "a < length ns" "status (ns ! a) AND flag \<noteq> 0"
    "parent (ns ! a) = Some p"
  shows "flaggedChain flag ns a x"
  using assms
proof (induction rule: flaggedChain.induct)
  case chain_start
  then show ?case
    by (auto intro: flaggedChain.chain_step flaggedChain.chain_start)
next
  case (chain_step b c)
  then show ?case
    by (auto intro: flaggedChain.chain_step)
qed

lemma flaggedChain_after_clear:
  assumes "flaggedChain flag (ns[a := cleared flag (ns ! a)]) p x" "a < length ns"
  shows "flaggedChain flag ns p x"
  using assms
proof (induction rule: flaggedChain.induct)
  case chain_start
  then show ?case
    by (auto simp: nth_list_update cleared_def split: if_splits intro: flaggedChain.chain_start)
next
  case (chain_step b c)
  then have "parent (ns ! b) = Some c"
    by (auto simp: nth_list_update cleared_def split: if_splits)
  moreover from chain_step have "status (ns ! c) AND flag \<noteq> 0"
    by (auto simp: nth_list_update cleared_def split: if_splits)
  ultimately show ?case
    using chain_step by (auto intro: flaggedChain.chain_step)
qed

lemma flaggedChain_skip_first:
  assumes "flaggedChain flag ns a x" "x \<noteq> a"
  shows "\<exists>p. parent (ns ! a) = Some p \<and> flaggedChain flag (ns[a := cleared flag (ns ! a)]) p x"
  using assms
proof (induction rule: flaggedChain.induct)
  case chain_start
  then show ?case by simp
next
  case (chain_step b c)
  let ?ns1 = "ns[a := cleared flag (ns ! a)]"
  from chain_step.prems chain_step.hyps have c: "c < length ?ns1" "status (?ns1 ! c) AND flag \<noteq> 0"
    by (simp_all add: nth_list_update)
  show ?case
  proof (cases "b = a")
    case True
    with chain_step.hyps c show ?thesis
      by (auto intro: flaggedChain.chain_start)
  next
    case False
    with chain_step.IH obtain p where p: "parent (ns ! a) = Some p" "flaggedChain flag ?ns1 p b"
      by blast
    from chain_step.hyps False have "parent (?ns1 ! b) = Some c"
      by (simp add: nth_list_update)
    with p c show ?thesis
      by (auto intro: flaggedChain.chain_step)
  qed
qed

lemma flaggedChain_first_step:
  assumes "a < length ns" "status (ns ! a) AND flag \<noteq> 0" "x \<noteq> a"
  shows "flaggedChain flag ns a x \<longleftrightarrow>
     (\<exists>p. parent (ns ! a) = Some p \<and> flaggedChain flag (ns[a := cleared flag (ns ! a)]) p x)"
  using assms
  by (blast intro: flaggedChain_skip_first flaggedChain_prepend flaggedChain_after_clear)

lemma resetFlagLoop_result:
  assumes "validParents ns" "validPtr ns n"
  shows "\<exists>ns'. resetFlagLoop flag ns n = Inr ns' \<and> length ns' = length ns \<and>
     (\<forall>x<length ns. ns' ! x =
        (if \<exists>a. n = Some a \<and> flaggedChain flag ns a x then cleared flag (ns ! x) else ns ! x))"
  using assms
proof (induction flag ns n rule: resetFlagLoop.induct)
  case (1 flag ns n)
  show ?case
  proof (cases n)
    case None
    then show ?thesis by (simp add: resetFlagLoop.simps)
  next
    case (Some a)
    with "1.prems" have a: "a < length ns" by (simp add: validPtr_def)
    show ?thesis
    proof (cases "status (ns ! a) AND flag \<noteq> 0")
      case False
      with Some a have "resetFlagLoop flag ns n = Inr ns"
        by (simp add: resetFlagLoop.simps)
      moreover from False Some have "\<not> (\<exists>b. n = Some b \<and> flaggedChain flag ns b x)" for x
        by (auto dest: flaggedChain_start_flagged)
      ultimately show ?thesis by auto
    next
      case True
      let ?ns1 = "ns[a := cleared flag (ns ! a)]"
      let ?n1 = "parent (ns ! a)"
      have eq: "resetFlagLoop flag ns n = resetFlagLoop flag ?ns1 ?n1"
        using Some a True by (subst resetFlagLoop.simps) (simp add: cleared_def)
      have v1: "validParents ?ns1"
        using "1.prems"(1) a by (rule validParents_update) (simp add: cleared_def)
      have v2: "validPtr ?ns1 ?n1"
        using validParents_nth [OF "1.prems"(1) a] by (auto simp: validPtr_def split: option.splits)
      have fold: "(ns ! a)\<lparr>status := status (ns ! a) AND NOT flag\<rparr> = cleared flag (ns ! a)"
        by (simp add: cleared_def)
      have "\<not> length ns \<le> a" using a by simp
      from "1.IH" [OF Some this True, unfolded fold, OF v1 v2]
      obtain ns' where ns': "resetFlagLoop flag ?ns1 ?n1 = Inr ns'" "length ns' = length ?ns1"
        "\<forall>x<length ?ns1. ns' ! x =
           (if \<exists>p. ?n1 = Some p \<and> flaggedChain flag ?ns1 p x then cleared flag (?ns1 ! x)
            else ?ns1 ! x)"
        by blast
      have "ns' ! x = (if flaggedChain flag ns a x then cleared flag (ns ! x) else ns ! x)"
        if x: "x < length ns" for x
      proof (cases "x = a")
        case xa: True
        have "\<not> flaggedChain flag ?ns1 p a" for p
          using a by (auto dest!: flaggedChain_end_flagged simp: cleared_def)
        with ns'(3) x xa a True show ?thesis
          by (auto intro: flaggedChain.chain_start)
      next
        case False
        with ns'(3) x flaggedChain_first_step [OF a True False] show ?thesis
          by auto
      qed
      with eq ns' Some show ?thesis by simp
    qed
  qed
qed


lemma exp_and_word:
  "2 ^ k AND flag = (if bit flag k then 2 ^ k else (0 :: cint))"
  by (rule bit_word_eqI) (auto simp: bit_simps)

lemma singleBit_and: "singleBit f \<Longrightarrow> f AND flag = 0 \<or> f AND flag = f"
  unfolding singleBit_def
  by (auto simp: exp_and_word)

lemma resetFlagUpToRoot_result:
  assumes "validParents (nodes m)" "this < length (nodes m)"
    "tree (nodes m ! this) = Some t" "t < length (treemaps m)"
  shows "\<exists>ns'. resetFlagLoop flag (nodes m) (Some this) = Inr ns' \<and>
      length ns' = length (nodes m) \<and>
      (\<forall>x<length (nodes m). ns' ! x =
         (if flaggedChain flag (nodes m) this x then cleared flag (nodes m ! x) else nodes m ! x)) \<and>
      resetFlagUpToRoot st m this flag =
        Inr (m\<lparr>nodes := ns',
               treemaps := (if flag AND IS_GAUSSIAN_VALID st \<noteq> 0
                  then (treemaps m)[t := (treemaps m ! t)\<lparr>isEstimateValid := False\<rparr>]
                  else treemaps m)\<rparr>)"
proof -
  from assms(2) have "validPtr (nodes m) (Some this)"
    by (simp add: validPtr_def)
  from resetFlagLoop_result [OF assms(1) this, of flag]
  obtain ns' where ns': "resetFlagLoop flag (nodes m) (Some this) = Inr ns'"
    "length ns' = length (nodes m)"
    "\<forall>x<length (nodes m). ns' ! x =
       (if flaggedChain flag (nodes m) this x then cleared flag (nodes m ! x) else nodes m ! x)"
    by auto
  from ns'(3) assms(2,3) have "tree (ns' ! this) = Some t"
    by (simp add: cleared_def)
  with ns' assms(4) show ?thesis
    by (simp add: resetFlagUpToRoot_def)
qed

lemma validParents_exampleNodes: "validParents exampleNodes"
  by (simp add: validParents_def validPtr_def exampleNodes_def)

text \<open>
  Claim C4. Called on a node of a memory whose parent pointers are valid and whose
  \<open>tree\<close> member points to a treemap, \<open>resetFlagUpToRoot\<close> returns, and afterwards:
  the mask \<open>flag\<close> is cleared on exactly the nodes of the flagged chain of the start node
  (the node itself and each successive ancestor for as long as the mask is set), every
  other node is unchanged, in particular the first ancestor on which the mask was already
  clear and everything the walk did not reach; and when \<open>flag\<close> shares a bit with
  \<open>IS_GAUSSIAN_VALID\<close> the owning treemap's \<open>isEstimateValid\<close> is set to false, otherwise
  no treemap changes.
\<close>

theorem resetFlagUpToRoot_clears_flagged_chain:
  assumes "validParents (nodes m)" "this < length (nodes m)"
    "tree (nodes m ! this) = Some t" "t < length (treemaps m)"
  shows "\<exists>m'. resetFlagUpToRoot st m this flag = Inr m' \<and>
      length (nodes m') = length (nodes m) \<and>
      (\<forall>x<length (nodes m). nodes m' ! x =
         (if flaggedChain flag (nodes m) this x
          then (nodes m ! x)\<lparr>status := status (nodes m ! x) AND NOT flag\<rparr>
          else nodes m ! x)) \<and>
      treemaps m' =
         (if flag AND IS_GAUSSIAN_VALID st \<noteq> 0
          then (treemaps m)[t := (treemaps m ! t)\<lparr>isEstimateValid := False\<rparr>]
          else treemaps m)"
  using resetFlagUpToRoot_result [OF assms, of flag st]
  by (auto simp: cleared_def)

theorem resetFlagUpToRoot_clears_flagged_chain_witness:
  "validParents (nodes exampleMemory) \<and> 3 < length (nodes exampleMemory) \<and>
   tree (nodes exampleMemory ! 3) = Some 0 \<and> 0 < length (treemaps exampleMemory) \<and>
   (\<exists>m'. resetFlagUpToRoot exampleStatus exampleMemory 3 2 = Inr m' \<and>
      length (nodes m') = length (nodes exampleMemory) \<and>
      (\<forall>x<length (nodes exampleMemory). nodes m' ! x =
         (if flaggedChain 2 (nodes exampleMemory) 3 x
          then (nodes exampleMemory ! x)\<lparr>status := status (nodes exampleMemory ! x) AND NOT 2\<rparr>
          else nodes exampleMemory ! x)) \<and>
      treemaps m' =
         (if 2 AND IS_GAUSSIAN_VALID exampleStatus \<noteq> 0
          then (treemaps exampleMemory)[0 := (treemaps exampleMemory ! 0)\<lparr>isEstimateValid := False\<rparr>]
          else treemaps exampleMemory))"
proof -
  have h: "validParents (nodes exampleMemory)" "3 < length (nodes exampleMemory)"
    "tree (nodes exampleMemory ! 3) = Some 0" "0 < length (treemaps exampleMemory)"
    by (simp_all add: exampleMemory_def validParents_exampleNodes) (simp_all add: exampleNodes_def)
  from resetFlagUpToRoot_clears_flagged_chain [OF h, of exampleStatus 2] h
  show ?thesis by blast
qed

text \<open>
  Claim C10. With a mask that contains \<open>IS_GAUSSIAN_VALID\<close>, \<open>resetFlagUpToRoot\<close>
  sets the owning treemap's \<open>isEstimateValid\<close> to false whatever the state of the nodes:
  also when no bit of the mask is set on the start node, in which case no node changes.
\<close>

theorem resetFlagUpToRoot_estimate_stale:
  assumes "validParents (nodes m)" "this < length (nodes m)"
    "tree (nodes m ! this) = Some t" "t < length (treemaps m)"
    "flag AND IS_GAUSSIAN_VALID st \<noteq> 0"
  shows "\<exists>m'. resetFlagUpToRoot st m this flag = Inr m' \<and>
      \<not> isEstimateValid (treemaps m' ! t) \<and>
      (status (nodes m ! this) AND flag = 0 \<longrightarrow> nodes m' = nodes m)"
proof -
  from resetFlagUpToRoot_result [OF assms(1-4), of flag st]
  obtain ns' where ns': "length ns' = length (nodes m)"
    "\<forall>x<length (nodes m). ns' ! x =
       (if flaggedChain flag (nodes m) this x then cleared flag (nodes m ! x) else nodes m ! x)"
    "resetFlagUpToRoot st m this flag =
        Inr (m\<lparr>nodes := ns',
               treemaps := (treemaps m)[t := (treemaps m ! t)\<lparr>isEstimateValid := False\<rparr>]\<rparr>)"
    using assms(5) by auto
  have "ns' = nodes m" if "status (nodes m ! this) AND flag = 0"
  proof (rule nth_equalityI)
    show "length ns' = length (nodes m)" by (rule ns'(1))
  next
    fix x assume "x < length ns'"
    moreover from that have "\<not> flaggedChain flag (nodes m) this x"
      by (auto dest: flaggedChain_start_flagged)
    ultimately show "ns' ! x = nodes m ! x"
      using ns'(1,2) by simp
  qed
  with ns'(3) assms(4) show ?thesis
    by auto
qed

theorem resetFlagUpToRoot_estimate_stale_witness:
  "validParents (nodes exampleMemory) \<and> 0 < length (nodes exampleMemory) \<and>
   tree (nodes exampleMemory ! 0) = Some 0 \<and> 0 < length (treemaps exampleMemory) \<and>
   2 AND IS_GAUSSIAN_VALID exampleStatus \<noteq> 0 \<and>
   status (nodes exampleMemory ! 0) AND 2 = 0 \<and>
   (\<exists>m'. resetFlagUpToRoot exampleStatus exampleMemory 0 2 = Inr m' \<and>
      \<not> isEstimateValid (treemaps m' ! 0) \<and> nodes m' = nodes exampleMemory)"
proof -
  have h: "validParents (nodes exampleMemory)" "0 < length (nodes exampleMemory)"
    "tree (nodes exampleMemory ! 0) = Some 0" "0 < length (treemaps exampleMemory)"
    "2 AND IS_GAUSSIAN_VALID exampleStatus \<noteq> 0"
    by (simp_all add: exampleMemory_def validParents_exampleNodes exampleStatus_def)
       (simp_all add: exampleNodes_def)
  have z: "status (nodes exampleMemory ! 0) AND 2 = 0"
    by (simp add: exampleMemory_def exampleNodes_def)
  from resetFlagUpToRoot_estimate_stale [OF h] h z
  show ?thesis by blast
qed

subsection \<open>The validity invariant\<close>

lemma live_parent_live:
  assumes wf: "wellFormedTree m t" and "live m t a" and "a < length (nodes m)"
    and "parent (nodes m ! a) = Some p"
  shows "live m t p"
  using assms(2-4)
proof (cases rule: live.cases)
  case live_root
  with wf assms(4) show ?thesis
    by (simp add: wellFormedTree_def)
next
  case (live_child0 b)
  with wf have "parent (nodes m ! a) = Some b"
    by (auto simp: wellFormedTree_def childrenLinked_def childLinked_def)
  with assms(4) live_child0 show ?thesis by simp
next
  case (live_child1 b)
  with wf have "parent (nodes m ! a) = Some b"
    by (auto simp: wellFormedTree_def childrenLinked_def childLinked_def)
  with assms(4) live_child1 show ?thesis by simp
qed

lemma ancestor_live:
  assumes wf: "wellFormedTree m t" and "ancestor (nodes m) a p" and "live m t a"
  shows "live m t p"
  using assms(2,3)
  by (induction rule: ancestor.induct) (auto intro: live_parent_live [OF wf])

text \<open>Two memories with the same links have the same ancestors and the same live nodes.\<close>

lemma ancestor_same_parents:
  assumes "ancestor ns a p" "length ns' = length ns"
    "\<forall>x<length ns. parent (ns' ! x) = parent (ns ! x)"
  shows "ancestor ns' a p"
  using assms by (induction rule: ancestor.induct) (auto intro: ancestor.intros)

lemma live_same_links:
  assumes "live m t a" "length (nodes m') = length (nodes m)"
    "\<forall>x<length (nodes m). child0 (nodes m' ! x) = child0 (nodes m ! x) \<and>
        child1 (nodes m' ! x) = child1 (nodes m ! x)"
    "length (treemaps m') = length (treemaps m)"
    "root (treemaps m' ! t) = root (treemaps m ! t)"
  shows "live m' t a"
  using assms by (induction rule: live.induct) (auto intro: live.intros)

lemma resetFlagUpToRoot_links:
  assumes "validParents (nodes m)" "this < length (nodes m)"
    "tree (nodes m ! this) = Some t" "t < length (treemaps m)"
    "resetFlagUpToRoot st m this flag = Inr m'"
  shows "length (nodes m') = length (nodes m)"
    and "\<forall>x<length (nodes m). parent (nodes m' ! x) = parent (nodes m ! x) \<and>
        child0 (nodes m' ! x) = child0 (nodes m ! x) \<and>
        child1 (nodes m' ! x) = child1 (nodes m ! x) \<and>
        tree (nodes m' ! x) = tree (nodes m ! x)"
    and "length (treemaps m') = length (treemaps m)"
    and "root (treemaps m' ! u) = root (treemaps m ! u)"
    and "\<forall>x<length (nodes m). status (nodes m' ! x) =
        (if flaggedChain flag (nodes m) this x then status (nodes m ! x) AND NOT flag
         else status (nodes m ! x))"
proof -
  from resetFlagUpToRoot_result [OF assms(1-4), of flag st] assms(5)
  obtain ns' where ns': "length ns' = length (nodes m)"
    "\<forall>x<length (nodes m). ns' ! x =
       (if flaggedChain flag (nodes m) this x then cleared flag (nodes m ! x) else nodes m ! x)"
    "m' = m\<lparr>nodes := ns',
               treemaps := (if flag AND IS_GAUSSIAN_VALID st \<noteq> 0
                  then (treemaps m)[t := (treemaps m ! t)\<lparr>isEstimateValid := False\<rparr>]
                  else treemaps m)\<rparr>"
    by auto
  from ns' show "length (nodes m') = length (nodes m)" by simp
  from ns' show "\<forall>x<length (nodes m). parent (nodes m' ! x) = parent (nodes m ! x) \<and>
        child0 (nodes m' ! x) = child0 (nodes m ! x) \<and>
        child1 (nodes m' ! x) = child1 (nodes m ! x) \<and>
        tree (nodes m' ! x) = tree (nodes m ! x)"
    by (simp add: cleared_def)
  from ns' show "length (treemaps m') = length (treemaps m)" by simp
  from ns'(3) assms(4) show "root (treemaps m' ! u) = root (treemaps m ! u)"
    by (cases "u = t") simp_all
  from ns' show "\<forall>x<length (nodes m). status (nodes m' ! x) =
        (if flaggedChain flag (nodes m) this x then status (nodes m ! x) AND NOT flag
         else status (nodes m ! x))"
    by (simp add: cleared_def)
qed

lemma flagInvariant_preserved:
  assumes wf: "wellFormedTree m t"
    and th: "this < length (nodes m)" "tree (nodes m ! this) = Some u" "u < length (treemaps m)"
    and inv: "flagInvariant m t f"
    and sub: "f AND flag = 0 \<or> f AND flag = f"
    and res: "resetFlagUpToRoot st m this flag = Inr m'"
  shows "flagInvariant m' t f"
proof -
  let ?ns = "nodes m" and ?ns' = "nodes m'"
  from wf have vp: "validParents ?ns" and t: "t < length (treemaps m)"
    by (simp_all add: wellFormedTree_def)
  note L = resetFlagUpToRoot_links [OF vp th res]
  have back_anc: "ancestor ?ns a p" if "ancestor ?ns' a p" for a p
  proof (rule ancestor_same_parents [OF that])
    show "length ?ns = length ?ns'" using L(1) by simp
    show "\<forall>x<length ?ns'. parent (?ns ! x) = parent (?ns' ! x)" using L(1,2) by simp
  qed
  have back_live: "live m t a" if "live m' t a" for a
  proof (rule live_same_links [OF that])
    show "length ?ns = length ?ns'" using L(1) by simp
    show "\<forall>x<length ?ns'. child0 (?ns ! x) = child0 (?ns' ! x) \<and>
        child1 (?ns ! x) = child1 (?ns' ! x)" using L(1,2) by simp
    show "length (treemaps m) = length (treemaps m')" using L(3) by simp
    show "root (treemaps m ! t) = root (treemaps m' ! t)" using L(4) by simp
  qed
  have anc_len: "p < length ?ns" if "ancestor ?ns a p" for a p
    using that by (induction rule: ancestor.induct) (auto intro: validParents_nth [OF vp])
  have anc_len0: "a < length ?ns" if "ancestor ?ns a p" for a p
    using that by (induction rule: ancestor.induct) auto
  show ?thesis
    unfolding flagInvariant_def
  proof (intro allI impI)
    fix a p
    assume "live m' t a" and "ancestor ?ns' a p" and clear': "status (?ns' ! a) AND f = 0"
    then have live: "live m t a" and anc: "ancestor ?ns a p"
      by (auto intro: back_live back_anc)
    from anc have a: "a < length ?ns" and p: "p < length ?ns"
      by (auto intro: anc_len anc_len0)
    from sub show "status (?ns' ! p) AND f = 0"
    proof
      assume disj: "f AND flag = 0"
      have same: "status (?ns' ! x) AND f = status (?ns ! x) AND f" if "x < length ?ns" for x
      proof -
        have nb: "\<not> (bit f n \<and> bit flag n)" for n
        proof -
          from disj have "bit (f AND flag) n = bit (0 :: cint) n" by simp
          then show ?thesis by (simp add: bit_and_iff)
        qed
        have "(s AND NOT flag) AND f = s AND f" for s :: cint
          by (rule bit_word_eqI) (use nb in \<open>auto simp: bit_and_iff bit_not_iff\<close>)
        with L(5) that show ?thesis by simp
      qed
      with clear' a have "status (?ns ! a) AND f = 0" by simp
      with inv live anc have "status (?ns ! p) AND f = 0"
        by (auto simp: flagInvariant_def)
      with same p show ?thesis by simp
    next
      assume subset: "f AND flag = f"
      have gone: "(s AND NOT flag) AND f = 0" for s :: cint
      proof -
        have "(s AND NOT flag) AND f = (s AND NOT flag) AND (flag AND f)"
          using subset by (simp add: and.commute)
        also have "\<dots> = 0"
          by (simp add: and.assoc [symmetric])
        finally show ?thesis .
      qed
      have flag0: "s AND f = 0" if "s AND flag = 0" for s :: cint
      proof -
        have "s AND f = s AND (flag AND f)"
          using subset by (simp add: and.commute)
        also have "\<dots> = (s AND flag) AND f"
          by (simp add: and.assoc)
        finally show ?thesis using that by simp
      qed
      have mono: "status (?ns' ! x) AND f = 0" if "x < length ?ns" "status (?ns ! x) AND f = 0" for x
        using L(5) that gone by auto
      show ?thesis
      proof (cases "flaggedChain flag ?ns this a")
        case False
        with L(5) a clear' have "status (?ns ! a) AND f = 0" by simp
        with inv live anc have "status (?ns ! p) AND f = 0"
          by (auto simp: flagInvariant_def)
        with p show ?thesis by (rule mono)
      next
        case True
        have "flaggedChain flag ?ns this p \<or> status (?ns ! p) AND f = 0"
          using anc
        proof (induction rule: ancestor.induct)
          case (ancestor_parent q)
          then have q: "q < length ?ns"
            by (auto intro: validParents_nth [OF vp])
          show ?case
          proof (cases "status (?ns ! q) AND flag = 0")
            case True
            then show ?thesis by (simp add: flag0)
          next
            case False
            with True ancestor_parent q show ?thesis
              by (auto intro: flaggedChain.chain_step)
          qed
        next
          case (ancestor_step q r)
          then have r: "r < length ?ns"
            by (auto intro: validParents_nth [OF vp])
          from ancestor_step.IH show ?case
          proof
            assume "flaggedChain flag ?ns this q"
            show ?thesis
            proof (cases "status (?ns ! r) AND flag = 0")
              case True
              then show ?thesis by (simp add: flag0)
            next
              case False
              with \<open>flaggedChain flag ?ns this q\<close> ancestor_step r show ?thesis
                by (auto intro: flaggedChain.chain_step)
            qed
          next
            assume q0: "status (?ns ! q) AND f = 0"
            from wf ancestor_step.hyps(1) live have "live m t q"
              by (rule ancestor_live)
            moreover from ancestor_step.hyps have "ancestor ?ns q r"
              by (auto intro: ancestor.ancestor_parent)
            ultimately have "status (?ns ! r) AND f = 0"
              using inv q0 by (auto simp: flagInvariant_def)
            then show ?thesis ..
          qed
        qed
        then show ?thesis
        proof
          assume "flaggedChain flag ?ns this p"
          with L(5) p gone show ?thesis by simp
        next
          assume "status (?ns ! p) AND f = 0"
          with p show ?thesis by (rule mono)
        qed
      qed
    qed
  qed
qed

lemma wellFormedTree_exampleMemory: "wellFormedTree exampleMemory 0"
  by (simp add: wellFormedTree_def validParents_exampleNodes exampleMemory_def)
     (simp add: childrenLinked_def childLinked_def exampleNodes_def All_less_Suc)

lemma ancestor_has_parent: "ancestor ns a p \<Longrightarrow> a < length ns \<and> parent (ns ! a) \<noteq> None"
  by (induction rule: ancestor.induct) auto

lemma singleBit_1: "singleBit 1"
  unfolding singleBit_def by (rule exI [of _ 0]) simp

lemma singleBit_2: "singleBit 2"
  unfolding singleBit_def by (rule exI [of _ 1]) simp

lemma flagInvariant_exampleMemory:
  assumes "f = 1 \<or> f = 2"
  shows "flagInvariant exampleMemory 0 f"
  unfolding flagInvariant_def
proof (intro allI impI)
  fix a p
  assume "ancestor (nodes exampleMemory) a p" and z: "status (nodes exampleMemory ! a) AND f = 0"
  then have "a < 5" and "parent (exampleNodes ! a) \<noteq> None"
    by (auto dest!: ancestor_has_parent simp: exampleMemory_def exampleNodes_def)
  then have "a = 1 \<or> a = 2 \<or> a = 3 \<or> a = 4"
    by (cases "a = 0") (auto simp: exampleNodes_def)
  with z assms have False
    by (auto simp: exampleMemory_def exampleNodes_def)
  then show "status (nodes exampleMemory ! p) AND f = 0" ..
qed

text \<open>Evaluating the loop on the example: nodes 3 and 1 are cleared, the walk stops at the root.\<close>

lemma resetFlagUpToRoot_example:
  "resetFlagUpToRoot exampleStatus exampleMemory 3 2 =
     Inr \<lparr>nodes =
       [\<lparr>status = 1, parent = None, child0 = Some 1, child1 = Some 2, tree = Some 0\<rparr>,
        \<lparr>status = 1, parent = Some 0, child0 = Some 3, child1 = Some 4, tree = Some 0\<rparr>,
        \<lparr>status = 3, parent = Some 0, child0 = None, child1 = None, tree = Some 0\<rparr>,
        \<lparr>status = 1, parent = Some 1, child0 = None, child1 = None, tree = Some 0\<rparr>,
        \<lparr>status = 3, parent = Some 1, child0 = None, child1 = None, tree = Some 0\<rparr>],
      treemaps = [\<lparr>root = Some 0, node = [Some 0, Some 1, Some 2, Some 3, Some 4],
       unusedNodes = [], isEstimateValid = False, isGaussianValidValid = True\<rparr>]\<rparr>"
  by (simp add: resetFlagUpToRoot_def resetFlagLoop.simps exampleMemory_def exampleNodes_def
      exampleStatus_def)

text \<open>
  Claim C3 (as amended). \<open>resetFlagUpToRoot\<close>, the primitive that propagates every
  invalidation, preserves the validity invariant of both \<open>IS_FEATURE_PASSED_VALID\<close> and
  \<open>IS_GAUSSIAN_VALID\<close>: if, in a well-formed tree, every live node with the flag clear
  has it clear on all its ancestors, then the same holds after a call on any node with
  any mask.
\<close>

theorem resetFlagUpToRoot_preserves_flagInvariant:
  assumes "wellFormedTree m t" "this < length (nodes m)"
    "tree (nodes m ! this) = Some u" "u < length (treemaps m)"
    "singleBit (IS_FEATURE_PASSED_VALID st)" "singleBit (IS_GAUSSIAN_VALID st)"
    "flagInvariant m t (IS_FEATURE_PASSED_VALID st)" "flagInvariant m t (IS_GAUSSIAN_VALID st)"
  shows "\<exists>m'. resetFlagUpToRoot st m this flag = Inr m' \<and>
     flagInvariant m' t (IS_FEATURE_PASSED_VALID st) \<and>
     flagInvariant m' t (IS_GAUSSIAN_VALID st)"
proof -
  from assms(1) have "validParents (nodes m)"
    by (simp add: wellFormedTree_def)
  from resetFlagUpToRoot_result [OF this assms(2-4), of flag st]
  obtain m' where m': "resetFlagUpToRoot st m this flag = Inr m'"
    by blast
  from assms(1-4) assms(7) singleBit_and [OF assms(5)] m'
  have "flagInvariant m' t (IS_FEATURE_PASSED_VALID st)"
    by (rule flagInvariant_preserved)
  moreover from assms(1-4) assms(8) singleBit_and [OF assms(6)] m'
  have "flagInvariant m' t (IS_GAUSSIAN_VALID st)"
    by (rule flagInvariant_preserved)
  ultimately show ?thesis
    using m' by blast
qed

theorem resetFlagUpToRoot_preserves_flagInvariant_witness:
  "wellFormedTree exampleMemory 0 \<and>
   flagInvariant exampleMemory 0 (IS_FEATURE_PASSED_VALID exampleStatus) \<and>
   flagInvariant exampleMemory 0 (IS_GAUSSIAN_VALID exampleStatus) \<and>
   (\<exists>m'. resetFlagUpToRoot exampleStatus exampleMemory 3 2 = Inr m' \<and>
     flagInvariant m' 0 (IS_FEATURE_PASSED_VALID exampleStatus) \<and>
     flagInvariant m' 0 (IS_GAUSSIAN_VALID exampleStatus))"
proof -
  have fp: "flagInvariant exampleMemory 0 (IS_FEATURE_PASSED_VALID exampleStatus)"
    and g: "flagInvariant exampleMemory 0 (IS_GAUSSIAN_VALID exampleStatus)"
    by (simp_all add: exampleStatus_def flagInvariant_exampleMemory)
  have sb: "singleBit (IS_FEATURE_PASSED_VALID exampleStatus)"
    "singleBit (IS_GAUSSIAN_VALID exampleStatus)"
    by (simp_all add: exampleStatus_def singleBit_1 singleBit_2)
  have th: "3 < length (nodes exampleMemory)" "tree (nodes exampleMemory ! 3) = Some 0"
    "0 < length (treemaps exampleMemory)"
    by (simp_all add: exampleMemory_def exampleNodes_def)
  from resetFlagUpToRoot_preserves_flagInvariant
      [OF wellFormedTree_exampleMemory th sb fp g, of 2]
    wellFormedTree_exampleMemory fp g
  show ?thesis by blast
qed

end
